theory Spec2Isabelle
  imports Main
begin

section \<open>Data model of ConnectFour.tsx\<close>

text \<open>
  \<^verbatim>\<open>type Player = 1 | 2; type Cell = Player | null; type Board = Cell[][];\<close>
  A cell is \<open>None\<close> for \<^verbatim>\<open>null\<close>. Rows are indexed top (0) to bottom (ROWS - 1).
\<close>

datatype Player = P1 | P2

type_synonym Cell = "Player option"

type_synonym Board = "Cell list list"

definition ROWS :: int where
  "ROWS = 6"

definition COLS :: int where
  "COLS = 7"

text \<open>
  \<^verbatim>\<open>interface GameState\<close>. An entry \<^verbatim>\<open>[row, col]\<close> of \<^verbatim>\<open>winningCells\<close> is a pair.
\<close>

record GameState =
  board :: Board
  currentPlayer :: Player
  winner :: "Player option"
  winningCells :: "(int \<times> int) list"
  gameOver :: bool

text \<open>The only run-time failure of the engine: reading a property of \<^verbatim>\<open>undefined\<close>.\<close>

datatype error = TypeError

section \<open>JavaScript array access\<close>

text \<open>
  \<^verbatim>\<open>xs[i]\<close> on an array is \<^verbatim>\<open>undefined\<close> (here \<open>None\<close>) for every integer index that
  is negative or not below the length.
\<close>

definition jsIndex :: "'a list \<Rightarrow> int \<Rightarrow> 'a option" where
  "jsIndex xs i = (if 0 \<le> i \<and> i < int (length xs) then Some (xs ! nat i) else None)"

text \<open>
  \<^verbatim>\<open>board[row][col]\<close>: a TypeError when \<^verbatim>\<open>board[row]\<close> is undefined, otherwise the cell
  or \<^verbatim>\<open>undefined\<close>. The result \<open>Inr None\<close> is undefined, \<open>Inr (Some None)\<close> is null.
\<close>

definition readCell :: "Board \<Rightarrow> int \<Rightarrow> int \<Rightarrow> error + Cell option" where
  "readCell b row col =
     (case jsIndex b row of
        None \<Rightarrow> Inl TypeError
      | Some r \<Rightarrow> Inr (jsIndex r col))"

text \<open>
  \<^verbatim>\<open>newBoard[row][col] = v\<close>. The engine writes only to a cell it has just read as
  null, so both indices are inside the arrays.
\<close>

definition writeCell :: "Board \<Rightarrow> int \<Rightarrow> int \<Rightarrow> Cell \<Rightarrow> Board" where
  "writeCell b row col v = b[nat row := (b ! nat row)[nat col := v]]"

section \<open>The engine\<close>

text \<open>The state of \<^verbatim>\<open>useState\<close> at mount, and the one \<^verbatim>\<open>resetGame\<close> installs.\<close>

definition emptyBoard :: Board where
  "emptyBoard = replicate (nat ROWS) (replicate (nat COLS) None)"

definition initialState :: GameState where
  "initialState =
     \<lparr>board = emptyBoard, currentPlayer = P1, winner = None, winningCells = [],
      gameOver = False\<rparr>"

definition resetGame :: "GameState \<Rightarrow> GameState" where
  "resetGame gs =
     \<lparr>board = emptyBoard, currentPlayer = P1, winner = None, winningCells = [],
      gameOver = False\<rparr>"

text \<open>
  The \<^verbatim>\<open>directions\<close> table of \<^verbatim>\<open>checkWinner\<close>, as \<open>(dx, dy)\<close> = (row step, column step).
  The comments of the source label the four entries horizontal, vertical, diagonal "/"
  and diagonal "\", in this order.
\<close>

definition directions :: "(int \<times> int) list" where
  "directions = [(0, 1), (1, 0), (1, 1), (1, -1)]"

text \<open>
  \<^verbatim>\<open>for (let i = 1; i < 4; i++)\<close> in the positive direction: \<^verbatim>\<open>cells.push\<close> on a match,
  \<^verbatim>\<open>break\<close> otherwise.
\<close>

function positiveLoop ::
  "Board \<Rightarrow> int \<Rightarrow> int \<Rightarrow> Player \<Rightarrow> int \<Rightarrow> int \<Rightarrow> int \<Rightarrow> (int \<times> int) list
    \<Rightarrow> error + (int \<times> int) list" where
  "positiveLoop b row col player dx dy i cells =
     (if i < 4 then
        (let newRow = row + dx * i; newCol = col + dy * i in
         if newRow \<ge> 0 \<and> newRow < ROWS \<and> newCol \<ge> 0 \<and> newCol < COLS then
           (case readCell b newRow newCol of
              Inl e \<Rightarrow> Inl e
            | Inr v \<Rightarrow>
                if v = Some (Some player)
                then positiveLoop b row col player dx dy (i + 1) (cells @ [(newRow, newCol)])
                else Inr cells)
         else Inr cells)
      else Inr cells)"
  by pat_completeness auto
termination
  by (relation "measure (\<lambda>(b, row, col, player, dx, dy, i, cells). nat (4 - i))") auto

text \<open>The same loop in the negative direction: \<^verbatim>\<open>cells.unshift\<close> on a match.\<close>

function negativeLoop ::
  "Board \<Rightarrow> int \<Rightarrow> int \<Rightarrow> Player \<Rightarrow> int \<Rightarrow> int \<Rightarrow> int \<Rightarrow> (int \<times> int) list
    \<Rightarrow> error + (int \<times> int) list" where
  "negativeLoop b row col player dx dy i cells =
     (if i < 4 then
        (let newRow = row - dx * i; newCol = col - dy * i in
         if newRow \<ge> 0 \<and> newRow < ROWS \<and> newCol \<ge> 0 \<and> newCol < COLS then
           (case readCell b newRow newCol of
              Inl e \<Rightarrow> Inl e
            | Inr v \<Rightarrow>
                if v = Some (Some player)
                then negativeLoop b row col player dx dy (i + 1) ((newRow, newCol) # cells)
                else Inr cells)
         else Inr cells)
      else Inr cells)"
  by pat_completeness auto
termination
  by (relation "measure (\<lambda>(b, row, col, player, dx, dy, i, cells). nat (4 - i))") auto

text \<open>
  \<^verbatim>\<open>for (const [dx, dy] of directions)\<close>: the first direction whose cells number at
  least 4 returns \<^verbatim>\<open>cells.slice(0, 4)\<close>; after the last direction the result is \<^verbatim>\<open>[]\<close>.
\<close>

fun directionsLoop ::
  "Board \<Rightarrow> int \<Rightarrow> int \<Rightarrow> Player \<Rightarrow> (int \<times> int) list \<Rightarrow> error + (int \<times> int) list" where
  "directionsLoop b row col player [] = Inr []"
| "directionsLoop b row col player ((dx, dy) # ds) =
     (case positiveLoop b row col player dx dy 1 [(row, col)] of
        Inl e \<Rightarrow> Inl e
      | Inr cells1 \<Rightarrow>
          (case negativeLoop b row col player dx dy 1 cells1 of
             Inl e \<Rightarrow> Inl e
           | Inr cells \<Rightarrow>
               if length cells \<ge> 4 then Inr (take 4 cells)
               else directionsLoop b row col player ds))"

definition checkWinner ::
  "Board \<Rightarrow> int \<Rightarrow> int \<Rightarrow> Player \<Rightarrow> error + (int \<times> int) list" where
  "checkWinner b row col player = directionsLoop b row col player directions"

text \<open>
  The body of \<^verbatim>\<open>dropPiece\<close> once a null cell is found at \<^verbatim>\<open>row\<close>: the write, the win
  check, the draw check and the state handed to \<^verbatim>\<open>setGameState\<close>. The drop animation
  (\<^verbatim>\<open>setDropAnimation\<close>, \<^verbatim>\<open>setTimeout\<close>) is state of the presentation, not of the GameState.
\<close>

definition placeAndUpdate :: "GameState \<Rightarrow> Board \<Rightarrow> int \<Rightarrow> int \<Rightarrow> error + GameState" where
  "placeAndUpdate gs newBoard row col =
     (let newBoard' = writeCell newBoard row col (Some (currentPlayer gs)) in
      case checkWinner newBoard' row col (currentPlayer gs) of
        Inl e \<Rightarrow> Inl e
      | Inr cells \<Rightarrow>
          (let hasWinner = (length cells > 0);
               isDraw = (\<not> hasWinner \<and> list_all (\<lambda>r. list_all (\<lambda>cell. cell \<noteq> None) r) newBoard')
           in Inr \<lparr>board = newBoard',
                   currentPlayer =
                     (if hasWinner \<or> isDraw then currentPlayer gs
                      else (if currentPlayer gs = P1 then P2 else P1)),
                   winner = (if hasWinner then Some (currentPlayer gs) else None),
                   winningCells = cells,
                   gameOver = (hasWinner \<or> isDraw)\<rparr>))"

text \<open>
  \<^verbatim>\<open>for (let row = ROWS - 1; row >= 0; row--)\<close>: the first null cell of the column,
  from the bottom, takes the piece and the function returns; when the loop ends without
  one, \<^verbatim>\<open>setGameState\<close> is never called and the state stays as it was.
\<close>

function dropLoop :: "GameState \<Rightarrow> Board \<Rightarrow> int \<Rightarrow> int \<Rightarrow> error + GameState" where
  "dropLoop gs newBoard col row =
     (if row \<ge> 0 then
        (case readCell newBoard row col of
           Inl e \<Rightarrow> Inl e
         | Inr v \<Rightarrow>
             if v = Some None then placeAndUpdate gs newBoard row col
             else dropLoop gs newBoard col (row - 1))
      else Inr gs)"
  by pat_completeness auto
termination
  by (relation "measure (\<lambda>(gs, newBoard, col, row). nat (row + 1))") auto

text \<open>
  \<^verbatim>\<open>dropPiece\<close>: nothing happens once the game is over; otherwise the board is copied
  row by row and the column is scanned.
\<close>

definition dropPiece :: "GameState \<Rightarrow> int \<Rightarrow> error + GameState" where
  "dropPiece gs col =
     (if gameOver gs then Inr gs
      else dropLoop gs (map (\<lambda>row. row) (board gs)) col (ROWS - 1))"

declare positiveLoop.simps [simp del] negativeLoop.simps [simp del] dropLoop.simps [simp del]

section \<open>Notions of the specification\<close>

text \<open>A board of the data model: ROWS rows of COLS cells each.\<close>

definition wfBoard :: "Board \<Rightarrow> bool" where
  "wfBoard b = (int (length b) = ROWS \<and> list_all (\<lambda>r. int (length r) = COLS) b)"

definition inBounds :: "int \<times> int \<Rightarrow> bool" where
  "inBounds rc = (0 \<le> fst rc \<and> fst rc < ROWS \<and> 0 \<le> snd rc \<and> snd rc < COLS)"

text \<open>The cell is inside the grid and holds a piece of player \<open>p\<close>.\<close>

definition owns :: "Board \<Rightarrow> Player \<Rightarrow> int \<times> int \<Rightarrow> bool" where
  "owns b p rc = (inBounds rc \<and> readCell b (fst rc) (snd rc) = Inr (Some (Some p)))"

text \<open>The cell reads as null.\<close>

definition isEmpty :: "Board \<Rightarrow> int \<Rightarrow> int \<Rightarrow> bool" where
  "isEmpty b r c = (readCell b r c = Inr (Some None))"

subsection \<open>Win detection as the specification words it\<close>

text \<open>The up to three cells next to the played cell in direction \<open>(dx, dy)\<close>, nearest first.\<close>

definition ray :: "int \<Rightarrow> int \<Rightarrow> int \<Rightarrow> int \<Rightarrow> (int \<times> int) list" where
  "ray row col dx dy = map (\<lambda>i. (row + dx * i, col + dy * i)) [1, 2, 3]"

text \<open>
  The combined run of an axis: the matching cells of the negative direction in spatial
  order (farthest first), the played cell, the matching cells of the positive direction.
\<close>

definition combinedRun ::
  "Board \<Rightarrow> int \<Rightarrow> int \<Rightarrow> Player \<Rightarrow> int \<times> int \<Rightarrow> (int \<times> int) list" where
  "combinedRun b row col p d =
     rev (takeWhile (owns b p) (ray row col (- fst d) (- snd d)))
     @ [(row, col)]
     @ takeWhile (owns b p) (ray row col (fst d) (snd d))"

text \<open>
  Specification of the detection: the first axis, in the order of the table, whose
  combined run has at least 4 cells reports the first 4 cells of that run; no axis, no
  cells.
\<close>

definition checkWinnerSpec :: "Board \<Rightarrow> int \<Rightarrow> int \<Rightarrow> Player \<Rightarrow> (int \<times> int) list" where
  "checkWinnerSpec b row col p =
     (case find (\<lambda>d. length (combinedRun b row col p d) \<ge> 4) directions of
        None \<Rightarrow> []
      | Some d \<Rightarrow> take 4 (combinedRun b row col p d))"

subsection \<open>The diagonals by their look on the board\<close>

text \<open>
  Row 0 is the top row and column 0 the left one. A step \<open>d\<close> = (row step, column
  step) runs along the diagonal "\" when it moves down exactly as far as it moves
  right, and along the diagonal "/" when it moves down exactly as far as it moves left.
\<close>

definition backslashAxis :: "int \<times> int \<Rightarrow> bool" where
  "backslashAxis d = (fst d \<noteq> 0 \<and> snd d = fst d)"

definition slashAxis :: "int \<times> int \<Rightarrow> bool" where
  "slashAxis d = (fst d \<noteq> 0 \<and> snd d = - fst d)"

text \<open>
  The order of evaluation with the diagonal "/" before the diagonal "\", and detection
  in that order.
\<close>

definition claimedDirections :: "(int \<times> int) list" where
  "claimedDirections = [(0, 1), (1, 0), (1, -1), (1, 1)]"

definition checkWinnerClaimed :: "Board \<Rightarrow> int \<Rightarrow> int \<Rightarrow> Player \<Rightarrow> (int \<times> int) list" where
  "checkWinnerClaimed b row col p =
     (case find (\<lambda>d. length (combinedRun b row col p d) \<ge> 4) claimedDirections of
        None \<Rightarrow> []
      | Some d \<Rightarrow> take 4 (combinedRun b row col p d))"

text \<open>
  Four cells in a line with unit spacing along axis \<open>d\<close>, the played cell being the
  \<open>j\<close>-th of them (counted from 0).
\<close>

definition window :: "int \<Rightarrow> int \<Rightarrow> int \<times> int \<Rightarrow> int \<Rightarrow> (int \<times> int) list" where
  "window row col d j = map (\<lambda>k. (row + fst d * (k - j), col + snd d * (k - j))) [0, 1, 2, 3]"

text \<open>
  The piece at (row, col) completes four collinear cells of player \<open>p\<close>: on some axis,
  some window of four cells through the played cell belongs to \<open>p\<close> entirely.
\<close>

definition completesFour :: "Board \<Rightarrow> int \<Rightarrow> int \<Rightarrow> Player \<Rightarrow> bool" where
  "completesFour b row col p =
     list_ex (\<lambda>d. list_ex (\<lambda>j. list_all (owns b p) (window row col d j)) [0, 1, 2, 3]) directions"

text \<open>
  Four cells, each one unit step along one of the four axes after the one before.
\<close>

definition isLine :: "(int \<times> int) list \<Rightarrow> bool" where
  "isLine cells =
     list_ex
       (\<lambda>d. cells = map (\<lambda>k. (fst (hd cells) + fst d * k, snd (hd cells) + snd d * k)) [0, 1, 2, 3])
       directions"

subsection \<open>The drop, described\<close>

text \<open>The rows in the order the scan of \<^verbatim>\<open>dropPiece\<close> visits them.\<close>

definition scanRows :: "int list" where
  "scanRows = rev [0..ROWS - 1]"

text \<open>The largest row index whose cell in the column is empty, if there is one.\<close>

definition lowestEmpty :: "Board \<Rightarrow> int \<Rightarrow> int option" where
  "lowestEmpty b col = find (\<lambda>r. isEmpty b r col) scanRows"

text \<open>The state after the mover's piece has landed at (row, col), by the specification.\<close>

definition dropResult :: "GameState \<Rightarrow> int \<Rightarrow> int \<Rightarrow> GameState" where
  "dropResult gs row col =
     (let b' = writeCell (board gs) row col (Some (currentPlayer gs));
          cells = checkWinnerSpec b' row col (currentPlayer gs);
          full = list_all (\<lambda>r. list_all (\<lambda>cell. cell \<noteq> None) r) b'
      in \<lparr>board = b',
          currentPlayer =
            (if cells \<noteq> [] \<or> full then currentPlayer gs
             else (if currentPlayer gs = P1 then P2 else P1)),
          winner = (if cells \<noteq> [] then Some (currentPlayer gs) else None),
          winningCells = cells,
          gameOver = (cells \<noteq> [] \<or> full)\<rparr>)"

text \<open>No floating piece: in every column, the cell above an empty cell is empty.\<close>

definition noFloating :: "Board \<Rightarrow> bool" where
  "noFloating b =
     list_all (\<lambda>c. list_all (\<lambda>r. isEmpty b (r + 1) c \<longrightarrow> isEmpty b r c) [0..ROWS - 2]) [0..COLS - 1]"

subsection \<open>Reachable states\<close>

text \<open>
  The states the component can be in: the initial one, and those that a call of
  \<^verbatim>\<open>dropPiece\<close> (with any integer column) or of \<^verbatim>\<open>resetGame\<close> leads to.
\<close>

inductive reachable :: "GameState \<Rightarrow> bool" where
  init: "reachable initialState"
| drop: "reachable gs \<Longrightarrow> dropPiece gs col = Inr gs' \<Longrightarrow> reachable gs'"
| reset: "reachable gs \<Longrightarrow> reachable (resetGame gs)"

text \<open>A sequence of column clicks.\<close>

fun play :: "GameState \<Rightarrow> int list \<Rightarrow> error + GameState" where
  "play gs [] = Inr gs"
| "play gs (col # cols) =
     (case dropPiece gs col of Inl e \<Rightarrow> Inl e | Inr gs' \<Rightarrow> play gs' cols)"

text \<open>What the winning cells of a state have to be, once there are any.\<close>

definition winningCellsOK :: "GameState \<Rightarrow> bool" where
  "winningCellsOK gs =
     (length (winningCells gs) = 4 \<and> distinct (winningCells gs)
      \<and> (\<exists>p. winner gs = Some p \<and> list_all (owns (board gs) p) (winningCells gs))
      \<and> isLine (winningCells gs))"

definition engineInv :: "GameState \<Rightarrow> bool" where
  "engineInv gs =
     (wfBoard (board gs) \<and> noFloating (board gs)
      \<and> (winningCells gs \<noteq> [] \<longrightarrow> winningCellsOK gs \<and> gameOver gs))"

section \<open>Concrete boards and states\<close>

text \<open>
  Player 1 has just played (2, 3): the piece completes row 2 (columns 1 to 4) and
  column 3 (rows 2 to 5) at once.
\<close>

definition crossBoard :: Board where
  "crossBoard =
     [[None, None, None, None, None, None, None],
      [None, None, None, None, None, None, None],
      [None, Some P1, Some P1, Some P1, Some P1, None, None],
      [None, Some P2, Some P2, Some P1, Some P2, None, None],
      [None, Some P2, Some P1, Some P1, Some P2, None, None],
      [None, Some P2, Some P2, Some P1, Some P1, Some P2, None]]"

text \<open>
  Scenario A places pieces of one player only: the scan and the write of
  \<^verbatim>\<open>dropPiece\<close>, without the turn and without detection.
\<close>

definition placeInColumn :: "Board \<Rightarrow> int \<Rightarrow> Player \<Rightarrow> Board" where
  "placeInColumn b col p =
     (case lowestEmpty b col of None \<Rightarrow> b | Some row \<Rightarrow> writeCell b row col (Some p))"

definition scenarioABoard :: Board where
  "scenarioABoard =
     placeInColumn (placeInColumn (placeInColumn (placeInColumn emptyBoard 3 P1) 3 P1) 3 P1) 3 P1"

text \<open>After the clicks 3, 0, 3, 0, 3, 0: player 1 to move, three pieces each.\<close>

definition beforeWinState :: GameState where
  "beforeWinState =
     \<lparr>board =
        [[None, None, None, None, None, None, None],
         [None, None, None, None, None, None, None],
         [None, None, None, None, None, None, None],
         [Some P2, None, None, Some P1, None, None, None],
         [Some P2, None, None, Some P1, None, None, None],
         [Some P2, None, None, Some P1, None, None, None]],
      currentPlayer = P1, winner = None, winningCells = [], gameOver = False\<rparr>"

text \<open>One click on column 3 later: player 1 has won in column 3.\<close>

definition wonState :: GameState where
  "wonState =
     \<lparr>board =
        [[None, None, None, None, None, None, None],
         [None, None, None, None, None, None, None],
         [None, None, None, Some P1, None, None, None],
         [Some P2, None, None, Some P1, None, None, None],
         [Some P2, None, None, Some P1, None, None, None],
         [Some P2, None, None, Some P1, None, None, None]],
      currentPlayer = P1, winner = Some P1,
      winningCells = [(2, 3), (3, 3), (4, 3), (5, 3)], gameOver = True\<rparr>"

text \<open>After six clicks on column 0: the column is full, the game goes on.\<close>

definition fullColumnState :: GameState where
  "fullColumnState =
     \<lparr>board =
        [[Some P2, None, None, None, None, None, None],
         [Some P1, None, None, None, None, None, None],
         [Some P2, None, None, None, None, None, None],
         [Some P1, None, None, None, None, None, None],
         [Some P2, None, None, None, None, None, None],
         [Some P1, None, None, None, None, None, None]],
      currentPlayer = P1, winner = None, winningCells = [], gameOver = False\<rparr>"

text \<open>
  After the clicks 0, 1, 1, 2, 3, 2, 2, 4, 3, 4, 4, 5, 5, 3, 6, 0 and then 3: player 1's
  piece at (2, 3) completes the diagonal down to (5, 6) and the diagonal down to (5, 0)
  at once.
\<close>

definition twoDiagonalsWon :: GameState where
  "twoDiagonalsWon =
     \<lparr>board =
        [[None, None, None, None, None, None, None],
         [None, None, None, None, None, None, None],
         [None, None, None, Some P1, None, None, None],
         [None, None, Some P1, Some P2, Some P1, None, None],
         [Some P2, Some P1, Some P2, Some P1, Some P2, Some P1, None],
         [Some P1, Some P2, Some P2, Some P1, Some P2, Some P2, Some P1]],
      currentPlayer = P1, winner = Some P1,
      winningCells = [(2, 3), (3, 4), (4, 5), (5, 6)], gameOver = True\<rparr>"

text \<open>
  A board without four in a line anywhere (rows alternate, and change phase every two
  rows), with the cell (0, 0) left open.
\<close>

definition lastCellBoard :: "Cell \<Rightarrow> Board" where
  "lastCellBoard x =
     [[x, Some P2, Some P1, Some P2, Some P1, Some P2, Some P1],
      [Some P1, Some P2, Some P1, Some P2, Some P1, Some P2, Some P1],
      [Some P2, Some P1, Some P2, Some P1, Some P2, Some P1, Some P2],
      [Some P2, Some P1, Some P2, Some P1, Some P2, Some P1, Some P2],
      [Some P1, Some P2, Some P1, Some P2, Some P1, Some P2, Some P1],
      [Some P1, Some P2, Some P1, Some P2, Some P1, Some P2, Some P1]]"

definition lastCellState :: GameState where
  "lastCellState =
     \<lparr>board = lastCellBoard None,
      currentPlayer = P1, winner = None, winningCells = [], gameOver = False\<rparr>"

definition drawnState :: GameState where
  "drawnState =
     \<lparr>board = lastCellBoard (Some P1),
      currentPlayer = P1, winner = None, winningCells = [], gameOver = True\<rparr>"

text \<open>The initial state after one click on column 3.\<close>

definition afterFirstDrop :: GameState where
  "afterFirstDrop =
     \<lparr>board =
        [[None, None, None, None, None, None, None],
         [None, None, None, None, None, None, None],
         [None, None, None, None, None, None, None],
         [None, None, None, None, None, None, None],
         [None, None, None, None, None, None, None],
         [None, None, None, Some P1, None, None, None]],
      currentPlayer = P2, winner = None, winningCells = [], gameOver = False\<rparr>"

section \<open>The loops of checkWinner compute the specified run\<close>

lemma readCell_rows:
  assumes "ROWS \<le> int (length b)" "0 \<le> r" "r < ROWS"
  shows "readCell b r c = Inr (jsIndex (b ! nat r) c)"
  using assms by (simp add: readCell_def jsIndex_def)

lemma positiveLoop_step:
  assumes "ROWS \<le> int (length b)" "i < 4"
  shows "positiveLoop b row col p dx dy i cells =
     (if owns b p (row + dx * i, col + dy * i)
      then positiveLoop b row col p dx dy (i + 1) (cells @ [(row + dx * i, col + dy * i)])
      else Inr cells)"
  using assms
  by (subst positiveLoop.simps) (auto simp: owns_def inBounds_def Let_def readCell_rows)

lemma positiveLoop_end: "\<not> i < 4 \<Longrightarrow> positiveLoop b row col p dx dy i cells = Inr cells"
  by (subst positiveLoop.simps) simp

lemma positiveLoop_run:
  assumes "ROWS \<le> int (length b)"
  shows "positiveLoop b row col p dx dy 1 cells
           = Inr (cells @ takeWhile (owns b p) (ray row col dx dy))"
  using assms by (simp add: positiveLoop_step positiveLoop_end ray_def)

lemma negativeLoop_step:
  assumes "ROWS \<le> int (length b)" "i < 4"
  shows "negativeLoop b row col p dx dy i cells =
     (if owns b p (row + (- dx) * i, col + (- dy) * i)
      then negativeLoop b row col p dx dy (i + 1) ((row + (- dx) * i, col + (- dy) * i) # cells)
      else Inr cells)"
  using assms
  by (subst negativeLoop.simps) (auto simp: owns_def inBounds_def Let_def readCell_rows)

lemma negativeLoop_end: "\<not> i < 4 \<Longrightarrow> negativeLoop b row col p dx dy i cells = Inr cells"
  by (subst negativeLoop.simps) simp

lemma negativeLoop_run:
  assumes "ROWS \<le> int (length b)"
  shows "negativeLoop b row col p dx dy 1 cells
           = Inr (rev (takeWhile (owns b p) (ray row col (- dx) (- dy))) @ cells)"
  using assms by (simp add: negativeLoop_step negativeLoop_end ray_def)

lemma directionsLoop_find:
  assumes "ROWS \<le> int (length b)"
  shows "directionsLoop b row col p ds =
     Inr (case find (\<lambda>d. length (combinedRun b row col p d) \<ge> 4) ds of
        None \<Rightarrow> []
      | Some d \<Rightarrow> take 4 (combinedRun b row col p d))"
proof (induction ds)
  case Nil
  show ?case by simp
next
  case (Cons d ds)
  obtain dx dy where d: "d = (dx, dy)" by (cases d)
  show ?case
    using Cons.IH assms
    by (simp add: d positiveLoop_run negativeLoop_run combinedRun_def)
qed

lemma checkWinner_refines:
  assumes "wfBoard b"
  shows "checkWinner b row col p = Inr (checkWinnerSpec b row col p)"
  using assms by (simp add: checkWinner_def checkWinnerSpec_def directionsLoop_find wfBoard_def)

subsection \<open>Runs of length four and windows of four cells\<close>

lemma run_length_abs:
  "4 \<le> length (rev (takeWhile P [b1, b2, b3]) @ [x] @ takeWhile P [a1, a2, a3]) \<longleftrightarrow>
     (P a1 \<and> P a2 \<and> P a3) \<or> (P b1 \<and> P a1 \<and> P a2) \<or> (P b2 \<and> P b1 \<and> P a1) \<or> (P b3 \<and> P b2 \<and> P b1)"
  by auto

lemma run_take_abs:
  assumes "4 \<le> length (rev (takeWhile P [b1, b2, b3]) @ [x] @ takeWhile P [a1, a2, a3])"
  shows "take 4 (rev (takeWhile P [b1, b2, b3]) @ [x] @ takeWhile P [a1, a2, a3]) =
     (if P b1 then if P b2 then if P b3 then [b3, b2, b1, x] else [b2, b1, x, a1]
        else [b1, x, a1, a2] else [x, a1, a2, a3])"
  using assms by (auto split: if_splits)

lemma window_0: "window row col (dx, dy) 0 =
   [(row, col), (row + dx * 1, col + dy * 1), (row + dx * 2, col + dy * 2), (row + dx * 3, col + dy * 3)]"
  by (simp add: window_def)

lemma window_1: "window row col (dx, dy) 1 =
   [(row + - dx * 1, col + - dy * 1), (row, col), (row + dx * 1, col + dy * 1), (row + dx * 2, col + dy * 2)]"
  by (simp add: window_def)

lemma window_2: "window row col (dx, dy) 2 =
   [(row + - dx * 2, col + - dy * 2), (row + - dx * 1, col + - dy * 1), (row, col), (row + dx * 1, col + dy * 1)]"
  by (simp add: window_def)

lemma window_3: "window row col (dx, dy) 3 =
   [(row + - dx * 3, col + - dy * 3), (row + - dx * 2, col + - dy * 2), (row + - dx * 1, col + - dy * 1), (row, col)]"
  by (simp add: window_def)

lemmas window_simps = window_0 window_1 window_2 window_3

lemma combinedRun_expand:
  "combinedRun b row col p (dx, dy) =
     rev (takeWhile (owns b p) [(row + - dx * 1, col + - dy * 1), (row + - dx * 2, col + - dy * 2), (row + - dx * 3, col + - dy * 3)])
     @ [(row, col)]
     @ takeWhile (owns b p) [(row + dx * 1, col + dy * 1), (row + dx * 2, col + dy * 2), (row + dx * 3, col + dy * 3)]"
  by (simp add: combinedRun_def ray_def)

lemma run_iff_window:
  assumes "owns b p (row, col)"
  shows "4 \<le> length (combinedRun b row col p d)
           \<longleftrightarrow> list_ex (\<lambda>j. list_all (owns b p) (window row col d j)) [0, 1, 2, 3]"
proof -
  obtain dx dy where d: "d = (dx, dy)" by (cases d)
  show ?thesis
    unfolding d combinedRun_expand run_length_abs
    using assms by (simp only: window_simps list_ex_Cons_iff list_ex_Nil_iff list.pred_inject) blast
qed

lemma run_take_window:
  assumes "4 \<le> length (combinedRun b row col p d)"
  shows "list_ex (\<lambda>j. take 4 (combinedRun b row col p d) = window row col d j) [0, 1, 2, 3]"
proof -
  obtain dx dy where d: "d = (dx, dy)" by (cases d)
  show ?thesis
    using assms unfolding d combinedRun_expand
    by (simp only: run_take_abs window_simps list_ex_Cons_iff list_ex_Nil_iff split: if_split) blast
qed

section \<open>Reading and writing a well-formed board\<close>

lemma scanRows_eq: "scanRows = [5, 4, 3, 2, 1, 0]"
  by (simp add: scanRows_def ROWS_def upto.simps)

lemma wfBoard_rows: "wfBoard b \<Longrightarrow> ROWS \<le> int (length b)"
  by (simp add: wfBoard_def)

lemma wfBoard_row_length:
  assumes "wfBoard b" "0 \<le> r" "r < ROWS"
  shows "int (length (b ! nat r)) = COLS"
proof -
  have "int (length b) = ROWS" using assms(1) by (simp add: wfBoard_def)
  then have "nat r < length b" using assms(2,3) by linarith
  then show ?thesis using assms(1) by (simp add: wfBoard_def list_all_length)
qed

lemma readCell_wf:
  assumes "wfBoard b" "inBounds (r, c)"
  shows "readCell b r c = Inr (Some (b ! nat r ! nat c))"
  using assms wfBoard_row_length[of b r]
  by (simp add: inBounds_def readCell_rows wfBoard_rows jsIndex_def)

lemma readCell_wf_outside:
  assumes "wfBoard b" "0 \<le> r" "r < ROWS" "c < 0 \<or> COLS \<le> c"
  shows "readCell b r c = Inr None"
  using assms wfBoard_row_length[of b r]
  by (auto simp add: readCell_rows wfBoard_rows jsIndex_def)

lemma isEmpty_inBounds:
  assumes "wfBoard b" "0 \<le> r" "r < ROWS" "isEmpty b r c"
  shows "inBounds (r, c)"
proof (rule ccontr)
  assume "\<not> inBounds (r, c)"
  then have "c < 0 \<or> COLS \<le> c" using assms by (auto simp: inBounds_def)
  then have "readCell b r c = Inr None" using assms by (simp add: readCell_wf_outside)
  then show False using assms(4) by (simp add: isEmpty_def)
qed

lemma wfBoard_writeCell:
  assumes "wfBoard b"
  shows "wfBoard (writeCell b r c v)"
proof -
  have rows: "\<And>n. n < length b \<Longrightarrow> int (length (b ! n)) = COLS"
    using assms by (simp add: wfBoard_def list_all_length)
  have "int (length (b[nat r := (b ! nat r)[nat c := v]] ! n)) = COLS" if "n < length b" for n
  proof (cases "nat r = n")
    case True
    then show ?thesis using that rows[of n] by simp
  next
    case False
    then show ?thesis using that rows[of n] by simp
  qed
  then show ?thesis using assms by (simp add: wfBoard_def writeCell_def list_all_length)
qed

lemma readCell_writeCell:
  assumes "wfBoard b" "inBounds (r, c)"
  shows "readCell (writeCell b r c v) r' c' =
           (if r' = r \<and> c' = c then Inr (Some v) else readCell b r' c')"
proof -
  have len: "nat r < length b" "nat c < length (b ! nat r)"
    using assms wfBoard_row_length[of b r] by (auto simp: inBounds_def wfBoard_def)
  have r0: "0 \<le> r" "0 \<le> c" using assms by (auto simp: inBounds_def)
  show ?thesis
  proof (cases "0 \<le> r' \<and> r' < int (length b)")
    case False
    then show ?thesis using len r0 by (auto simp: readCell_def jsIndex_def writeCell_def)
  next
    case True
    then have nr: "nat r' < length b" by linarith
    show ?thesis
    proof (cases "r' = r")
      case False
      then have "nat r' \<noteq> nat r" using True r0 by (simp add: eq_nat_nat_iff)
      then show ?thesis using True False
        by (simp add: readCell_def jsIndex_def writeCell_def)
    next
      case rr: True
      show ?thesis
      proof (cases "0 \<le> c' \<and> c' < int (length (b ! nat r))")
        case False
        then show ?thesis using len r0 rr True
          by (auto simp: readCell_def jsIndex_def writeCell_def)
      next
        case cc: True
        then have "(nat c = nat c') = (c' = c)" using r0 by (auto simp add: eq_nat_nat_iff)
        then show ?thesis using len r0 rr True cc
          by (simp add: readCell_def jsIndex_def writeCell_def nth_list_update)
      qed
    qed
  qed
qed

section \<open>The scan of dropPiece finds the lowest empty cell\<close>

lemma dropLoop_step:
  assumes "ROWS \<le> int (length b)" "0 \<le> row" "row < ROWS"
  shows "dropLoop gs b col row =
     (if isEmpty b row col then placeAndUpdate gs b row col else dropLoop gs b col (row - 1))"
  using assms
  by (subst dropLoop.simps) (simp add: readCell_rows isEmpty_def)

lemma dropLoop_end: "row < 0 \<Longrightarrow> dropLoop gs b col row = Inr gs"
  by (subst dropLoop.simps) simp

lemma dropLoop_find:
  assumes "ROWS \<le> int (length b)"
  shows "dropLoop gs b col (ROWS - 1) =
     (case lowestEmpty b col of None \<Rightarrow> Inr gs | Some r \<Rightarrow> placeAndUpdate gs b r col)"
proof -
  have r: "ROWS - 1 = 5" by (simp add: ROWS_def)
  have b: "6 \<le> int (length b)" using assms by (simp add: ROWS_def)
  show ?thesis
    unfolding r lowestEmpty_def scanRows_eq
    using b by (simp add: dropLoop_step dropLoop_end ROWS_def)
qed

lemma placeAndUpdate_eq:
  assumes "wfBoard (board gs)"
  shows "placeAndUpdate gs (board gs) row col = Inr (dropResult gs row col)"
  using wfBoard_writeCell[OF assms]
  by (simp add: placeAndUpdate_def dropResult_def checkWinner_refines Let_def)

lemma dropPiece_eq:
  assumes "wfBoard (board gs)" "\<not> gameOver gs"
  shows "dropPiece gs col =
     Inr (case lowestEmpty (board gs) col of None \<Rightarrow> gs | Some r \<Rightarrow> dropResult gs r col)"
  using assms
  by (simp add: dropPiece_def dropLoop_find wfBoard_rows placeAndUpdate_eq split: option.splits)

lemma int_below_6: "0 \<le> (r::int) \<Longrightarrow> r < 6 \<Longrightarrow> r = 0 \<or> r = 1 \<or> r = 2 \<or> r = 3 \<or> r = 4 \<or> r = 5"
  by arith

lemma lowestEmpty_Some:
  assumes "lowestEmpty b col = Some r"
  shows "0 \<le> r \<and> r < ROWS \<and> isEmpty b r col \<and> (\<forall>r'. r < r' \<and> r' < ROWS \<longrightarrow> \<not> isEmpty b r' col)"
proof -
  have mem: "r \<in> set scanRows" and e: "isEmpty b r col"
    using assms by (auto simp: lowestEmpty_def find_Some_iff)
  have rng: "0 \<le> r" "r < 6" using mem by (auto simp: scanRows_eq)
  have "\<not> isEmpty b r' col" if "r < r'" "r' < 6" for r'
  proof -
    have "r' = 0 \<or> r' = 1 \<or> r' = 2 \<or> r' = 3 \<or> r' = 4 \<or> r' = 5"
      using that rng by (intro int_below_6) auto
    moreover have "r = 0 \<or> r = 1 \<or> r = 2 \<or> r = 3 \<or> r = 4 \<or> r = 5"
      using rng by (intro int_below_6) auto
    ultimately show ?thesis
      using assms that(1)
      by (elim disjE; simp add: lowestEmpty_def scanRows_eq split: if_splits)
  qed
  then show ?thesis using rng e by (simp add: ROWS_def)
qed

lemma lowestEmpty_None:
  "lowestEmpty b col = None \<longleftrightarrow> (\<forall>r. 0 \<le> r \<and> r < ROWS \<longrightarrow> \<not> isEmpty b r col)"
proof
  assume "lowestEmpty b col = None"
  then have n: "\<And>r. r \<in> set scanRows \<Longrightarrow> \<not> isEmpty b r col"
    by (simp add: lowestEmpty_def find_None_iff)
  show "\<forall>r. 0 \<le> r \<and> r < ROWS \<longrightarrow> \<not> isEmpty b r col"
  proof (intro allI impI)
    fix r assume "0 \<le> r \<and> r < ROWS"
    then have "r = 0 \<or> r = 1 \<or> r = 2 \<or> r = 3 \<or> r = 4 \<or> r = 5"
      by (intro int_below_6) (auto simp: ROWS_def)
    then have "r \<in> set scanRows" by (auto simp: scanRows_eq)
    then show "\<not> isEmpty b r col" by (rule n)
  qed
next
  assume "\<forall>r. 0 \<le> r \<and> r < ROWS \<longrightarrow> \<not> isEmpty b r col"
  then show "lowestEmpty b col = None"
    by (auto simp: lowestEmpty_def find_None_iff scanRows_eq ROWS_def)
qed

lemma isEmpty_writeCell:
  assumes "wfBoard b" "inBounds (r, c)"
  shows "isEmpty (writeCell b r c (Some p)) r' c' = (isEmpty b r' c' \<and> (r', c') \<noteq> (r, c))"
  using assms by (auto simp: isEmpty_def readCell_writeCell)

lemma lowestEmpty_inBounds:
  assumes "wfBoard b" "lowestEmpty b col = Some r"
  shows "inBounds (r, col)"
  using assms lowestEmpty_Some[OF assms(2)] by (auto intro: isEmpty_inBounds)

lemma board_dropResult:
  "board (dropResult gs r col) = writeCell (board gs) r col (Some (currentPlayer gs))"
  by (simp add: dropResult_def Let_def)

section \<open>Full columns, full boards, completed fours\<close>

lemma noFloating_iff:
  "noFloating b \<longleftrightarrow>
     (\<forall>c r. 0 \<le> c \<and> c < COLS \<and> 0 \<le> r \<and> r < ROWS - 1 \<and> isEmpty b (r + 1) c \<longrightarrow> isEmpty b r c)"
  by (auto simp: noFloating_def list_all_iff)

lemma noFloating_column_full:
  assumes "noFloating b" "0 \<le> col" "col < COLS" "\<not> isEmpty b 0 col"
  shows "lowestEmpty b col = None"
proof -
  have step: "\<not> isEmpty b (r + 1) col" if "0 \<le> r" "r < 5" "\<not> isEmpty b r col" for r
    using assms(1-3) that unfolding noFloating_iff by (auto simp: ROWS_def)
  have e1: "\<not> isEmpty b 1 col" using step[of 0] assms(4) by simp
  have e2: "\<not> isEmpty b 2 col" using step[of 1] e1 by simp
  have e3: "\<not> isEmpty b 3 col" using step[of 2] e2 by simp
  have e4: "\<not> isEmpty b 4 col" using step[of 3] e3 by simp
  have e5: "\<not> isEmpty b 5 col" using step[of 4] e4 by simp
  show ?thesis
    using assms(4) e1 e2 e3 e4 e5 by (simp add: lowestEmpty_def scanRows_eq)
qed

lemma full_iff:
  assumes "wfBoard b"
  shows "list_all (\<lambda>r. list_all (\<lambda>cell. cell \<noteq> None) r) b
           \<longleftrightarrow> (\<forall>r c. inBounds (r, c) \<longrightarrow> \<not> isEmpty b r c)"
proof
  assume full: "list_all (\<lambda>r. list_all (\<lambda>cell. cell \<noteq> None) r) b"
  show "\<forall>r c. inBounds (r, c) \<longrightarrow> \<not> isEmpty b r c"
  proof (intro allI impI)
    fix r c assume ib: "inBounds (r, c)"
    then have r: "0 \<le> r" "r < ROWS" and c: "0 \<le> c" "c < COLS" by (auto simp: inBounds_def)
    have "int (length b) = ROWS" using assms by (simp add: wfBoard_def)
    then have nr: "nat r < length b" using r by linarith
    have "int (length (b ! nat r)) = COLS" using assms r by (rule wfBoard_row_length)
    then have nc: "nat c < length (b ! nat r)" using c by linarith
    have "b ! nat r ! nat c \<noteq> None" using full nr nc by (simp add: list_all_length)
    then show "\<not> isEmpty b r c" using assms ib by (simp add: isEmpty_def readCell_wf)
  qed
next
  assume ne: "\<forall>r c. inBounds (r, c) \<longrightarrow> \<not> isEmpty b r c"
  have "b ! i ! j \<noteq> None" if "i < length b" "j < length (b ! i)" for i j
  proof -
    have "int (length b) = ROWS" using assms by (simp add: wfBoard_def)
    then have i: "0 \<le> int i" "int i < ROWS" using that(1) by auto
    have "int (length (b ! nat (int i))) = COLS" using assms i by (rule wfBoard_row_length)
    then have "int j < COLS" using that(2) by simp
    then have ib: "inBounds (int i, int j)" using i by (simp add: inBounds_def)
    then have "\<not> isEmpty b (int i) (int j)" using ne by blast
    then show ?thesis using assms ib by (simp add: isEmpty_def readCell_wf)
  qed
  then show "list_all (\<lambda>r. list_all (\<lambda>cell. cell \<noteq> None) r) b"
    by (simp add: list_all_length)
qed

lemma checkWinnerSpec_nonempty_iff:
  assumes "owns b p (row, col)"
  shows "checkWinnerSpec b row col p \<noteq> [] \<longleftrightarrow> completesFour b row col p"
proof (cases "find (\<lambda>d. 4 \<le> length (combinedRun b row col p d)) directions")
  case None
  then have "\<forall>d\<in>set directions. \<not> 4 \<le> length (combinedRun b row col p d)"
    by (auto simp add: find_None_iff)
  then have "\<not> completesFour b row col p"
    using run_iff_window[OF assms] by (simp add: completesFour_def list_ex_iff)
  then show ?thesis using None by (simp add: checkWinnerSpec_def)
next
  case (Some d)
  then have d: "d \<in> set directions" "4 \<le> length (combinedRun b row col p d)"
    by (auto simp: find_Some_iff)
  then have "completesFour b row col p"
    using run_iff_window[OF assms, of d] by (auto simp: completesFour_def list_ex_iff)
  moreover have "take 4 (combinedRun b row col p d) \<noteq> []" using d(2) by auto
  ultimately show ?thesis using Some by (simp add: checkWinnerSpec_def)
qed

lemma successful_drop:
  assumes "wfBoard (board gs)" and "\<not> gameOver gs" and "dropPiece gs col = Inr gs'"
    and "isEmpty (board gs) row c" and "\<not> isEmpty (board gs') row c"
  shows "gs' = dropResult gs row col \<and> inBounds (row, col) \<and> c = col"
proof (cases "lowestEmpty (board gs) col")
  case None
  then have "gs' = gs" using assms(1-3) by (simp add: dropPiece_eq)
  then show ?thesis using assms(4,5) by simp
next
  case (Some r)
  then have g: "gs' = dropResult gs r col" using assms(1-3) by (simp add: dropPiece_eq)
  have ib: "inBounds (r, col)" using assms(1) Some by (rule lowestEmpty_inBounds)
  have "isEmpty (board gs') row c = (isEmpty (board gs) row c \<and> (row, c) \<noteq> (r, col))"
    unfolding g board_dropResult using assms(1) ib by (rule isEmpty_writeCell)
  then have "row = r \<and> c = col" using assms(4,5) by simp
  then show ?thesis using g ib by simp
qed

section \<open>The invariant of the engine\<close>

lemma reachable_play:
  "reachable gs \<Longrightarrow> play gs cols = Inr gs' \<Longrightarrow> reachable gs'"
proof (induction cols arbitrary: gs)
  case Nil
  then show ?case by simp
next
  case (Cons c cols)
  then show ?case by (auto split: sum.splits intro: reachable.drop)
qed

lemma wfBoard_emptyBoard: "wfBoard emptyBoard"
  by (simp add: wfBoard_def emptyBoard_def ROWS_def COLS_def list_all_length)

lemma isEmpty_emptyBoard: "isEmpty emptyBoard r c = inBounds (r, c)"
proof (cases "0 \<le> r \<and> r < ROWS")
  case True
  show ?thesis
  proof (cases "inBounds (r, c)")
    case ib: True
    then have n: "nat r < 6" "nat c < 7" by (auto simp: inBounds_def ROWS_def COLS_def)
    have "readCell emptyBoard r c = Inr (Some (emptyBoard ! nat r ! nat c))"
      using wfBoard_emptyBoard ib by (rule readCell_wf)
    moreover have "emptyBoard ! nat r ! nat c = None"
      using n by (simp add: emptyBoard_def ROWS_def COLS_def)
    ultimately show ?thesis using ib by (simp add: isEmpty_def)
  next
    case False
    then have "c < 0 \<or> COLS \<le> c" using True by (auto simp: inBounds_def)
    then show ?thesis using True False
      by (simp add: isEmpty_def readCell_wf_outside wfBoard_emptyBoard)
  qed
next
  case False
  then show ?thesis
    by (auto simp: isEmpty_def readCell_def jsIndex_def emptyBoard_def inBounds_def ROWS_def)
qed

lemma noFloating_emptyBoard: "noFloating emptyBoard"
  by (auto simp: noFloating_iff isEmpty_emptyBoard inBounds_def)

lemma noFloating_writeCell:
  assumes "wfBoard b" "noFloating b" "lowestEmpty b col = Some r"
  shows "noFloating (writeCell b r col (Some p))"
proof -
  have ib: "inBounds (r, col)" using assms(1,3) by (rule lowestEmpty_inBounds)
  have low: "\<And>r'. r < r' \<Longrightarrow> r' < ROWS \<Longrightarrow> \<not> isEmpty b r' col"
    using lowestEmpty_Some[OF assms(3)] by blast
  have e: "isEmpty (writeCell b r col (Some p)) r' c' \<Longrightarrow> isEmpty b r' c'" for r' c'
    using assms(1) ib by (auto simp: isEmpty_def readCell_writeCell split: if_splits)
  have k: "isEmpty b r' c' \<Longrightarrow> (r', c') \<noteq> (r, col) \<Longrightarrow> isEmpty (writeCell b r col (Some p)) r' c'" for r' c'
    using assms(1) ib by (auto simp: isEmpty_def readCell_writeCell split: if_splits)
  show ?thesis
    unfolding noFloating_iff
  proof (intro allI impI)
    fix c' r'
    assume h: "0 \<le> c' \<and> c' < COLS \<and> 0 \<le> r' \<and> r' < ROWS - 1 \<and> isEmpty (writeCell b r col (Some p)) (r' + 1) c'"
    then have old: "isEmpty b (r' + 1) c'" using e by blast
    then have up: "isEmpty b r' c'" using assms(2) h unfolding noFloating_iff by blast
    have "(r', c') \<noteq> (r, col)"
    proof
      assume "(r', c') = (r, col)"
      then have "isEmpty b (r + 1) col" using old by simp
      moreover have "r < r + 1" "r + 1 < ROWS" using h \<open>(r', c') = (r, col)\<close> by auto
      ultimately show False using low by blast
    qed
    then show "isEmpty (writeCell b r col (Some p)) r' c'" using up k by blast
  qed
qed

lemma combinedRun_owned:
  assumes "owns b p (row, col)"
  shows "list_all (owns b p) (combinedRun b row col p d)"
  using assms by (auto simp: combinedRun_def list_all_iff dest: set_takeWhileD)

lemma isLine_window:
  assumes "d \<in> set directions"
  shows "isLine (window row col d j)"
  unfolding isLine_def list_ex_iff
  by (rule bexI[OF _ assms]) (simp add: window_def algebra_simps)

lemma distinct_window:
  assumes "d \<in> set directions"
  shows "distinct (window row col d j)"
  using assms by (auto simp: directions_def window_def)

lemma checkWinnerSpec_cells:
  assumes "owns b p (row, col)" "checkWinnerSpec b row col p \<noteq> []"
  shows "length (checkWinnerSpec b row col p) = 4 \<and> distinct (checkWinnerSpec b row col p)
           \<and> list_all (owns b p) (checkWinnerSpec b row col p)
           \<and> isLine (checkWinnerSpec b row col p)"
proof (cases "find (\<lambda>d. 4 \<le> length (combinedRun b row col p d)) directions")
  case None
  then show ?thesis using assms(2) by (simp add: checkWinnerSpec_def)
next
  case (Some d)
  then have d: "d \<in> set directions" "4 \<le> length (combinedRun b row col p d)"
    by (auto simp: find_Some_iff)
  have eq: "checkWinnerSpec b row col p = take 4 (combinedRun b row col p d)"
    using Some by (simp add: checkWinnerSpec_def)
  obtain j where j: "take 4 (combinedRun b row col p d) = window row col d j"
    using run_take_window[OF d(2)] by (auto simp: list_ex_iff)
  have "set (take 4 (combinedRun b row col p d)) \<subseteq> set (combinedRun b row col p d)"
    by (rule set_take_subset)
  then have own: "list_all (owns b p) (take 4 (combinedRun b row col p d))"
    using combinedRun_owned[OF assms(1), of d] by (auto simp: list_all_iff)
  have len: "length (take 4 (combinedRun b row col p d)) = 4" using d(2) by simp
  show ?thesis
    unfolding eq using len own isLine_window[OF d(1), of row col j] distinct_window[OF d(1), of row col j]
    by (simp add: j)
qed

lemma engineInv_initial: "engineInv initialState"
  by (simp add: engineInv_def initialState_def wfBoard_emptyBoard noFloating_emptyBoard)

lemma engineInv_reset: "engineInv (resetGame gs)"
  by (simp add: engineInv_def resetGame_def wfBoard_emptyBoard noFloating_emptyBoard)

lemma engineInv_dropResult:
  assumes "engineInv gs" "lowestEmpty (board gs) col = Some r"
  shows "engineInv (dropResult gs r col)"
proof -
  have wf: "wfBoard (board gs)" and nf: "noFloating (board gs)"
    using assms(1) by (simp_all add: engineInv_def)
  have ib: "inBounds (r, col)" using wf assms(2) by (rule lowestEmpty_inBounds)
  let ?p = "currentPlayer gs"
  let ?b = "writeCell (board gs) r col (Some ?p)"
  have wf': "wfBoard ?b" using wf by (rule wfBoard_writeCell)
  have nf': "noFloating ?b" using wf nf assms(2) by (rule noFloating_writeCell)
  have own: "owns ?b ?p (r, col)" using wf ib by (simp add: owns_def readCell_writeCell)
  have "winningCellsOK (dropResult gs r col)" if "checkWinnerSpec ?b r col ?p \<noteq> []"
    using checkWinnerSpec_cells[OF own that] that
    by (simp add: winningCellsOK_def dropResult_def Let_def)
  then show ?thesis
    using wf' nf' by (simp add: engineInv_def board_dropResult) (simp add: dropResult_def Let_def)
qed

lemma engineInv_dropPiece:
  assumes "engineInv gs" "dropPiece gs col = Inr gs'"
  shows "engineInv gs'"
proof (cases "gameOver gs")
  case True
  then show ?thesis using assms by (simp add: dropPiece_def)
next
  case False
  have wf: "wfBoard (board gs)" using assms(1) by (simp add: engineInv_def)
  show ?thesis
  proof (cases "lowestEmpty (board gs) col")
    case None
    then show ?thesis using assms wf False by (simp add: dropPiece_eq)
  next
    case (Some r)
    then have "gs' = dropResult gs r col" using assms(2) wf False by (simp add: dropPiece_eq)
    then show ?thesis using engineInv_dropResult[OF assms(1) Some] by simp
  qed
qed

lemma reachable_engineInv: "reachable gs \<Longrightarrow> engineInv gs"
  by (induction rule: reachable.induct)
    (auto intro: engineInv_initial engineInv_reset engineInv_dropPiece)

subsection \<open>What a state-changing drop stores\<close>

lemma placeAndUpdate_winner:
  assumes "placeAndUpdate gs b row col = Inr gs'"
  shows "checkWinner (board gs') row col (currentPlayer gs) = Inr (winningCells gs')
           \<and> winner gs' = (if winningCells gs' = [] then None else Some (currentPlayer gs))"
  using assms by (auto simp: placeAndUpdate_def Let_def split: sum.splits)

lemma rev_upto_Cons: "0 \<le> (row::int) \<Longrightarrow> rev [0..row] = row # rev [0..row - 1]"
  by (simp add: upto_rec2)

lemma dropLoop_landing:
  assumes "dropLoop gs b col row = Inr gs'" and "gs' \<noteq> gs"
  shows "\<exists>r. find (\<lambda>r. isEmpty b r col) (rev [0..row]) = Some r
           \<and> placeAndUpdate gs b r col = Inr gs'"
  using assms
proof (induction gs b col row rule: dropLoop.induct)
  case (1 gs newBoard col row)
  show ?case
  proof (cases "row \<ge> 0")
    case False
    then show ?thesis using "1.prems" by (simp add: dropLoop.simps[of gs newBoard col row])
  next
    case True
    then obtain v where v: "readCell newBoard row col = Inr v"
      using "1.prems"(1)
      by (cases "readCell newBoard row col") (simp_all add: dropLoop.simps[of gs newBoard col row])
    show ?thesis
    proof (cases "v = Some None")
      case e: True
      then have "placeAndUpdate gs newBoard row col = Inr gs'"
        using "1.prems"(1) True v by (simp add: dropLoop.simps[of gs newBoard col row])
      moreover have "isEmpty newBoard row col" using v e by (simp add: isEmpty_def)
      ultimately show ?thesis using True by (simp add: rev_upto_Cons)
    next
      case ne: False
      then have "dropLoop gs newBoard col (row - 1) = Inr gs'"
        using "1.prems"(1) True v by (simp add: dropLoop.simps[of gs newBoard col row])
      then obtain r where "find (\<lambda>r. isEmpty newBoard r col) (rev [0..row - 1]) = Some r"
        and "placeAndUpdate gs newBoard r col = Inr gs'"
        using "1.IH"[OF True v ne] "1.prems"(2) by blast
      moreover have "\<not> isEmpty newBoard row col" using v ne by (simp add: isEmpty_def)
      ultimately show ?thesis using True by (simp add: rev_upto_Cons)
    qed
  qed
qed

lemma dropPiece_landing:
  assumes "dropPiece gs col = Inr gs'" and "gs' \<noteq> gs"
  shows "\<exists>row. lowestEmpty (board gs) col = Some row
           \<and> placeAndUpdate gs (board gs) row col = Inr gs'"
proof (cases "gameOver gs")
  case True
  then show ?thesis using assms by (simp add: dropPiece_def)
next
  case False
  then have "dropLoop gs (board gs) col (ROWS - 1) = Inr gs'"
    using assms(1) by (simp add: dropPiece_def)
  then show ?thesis
    using assms(2) unfolding lowestEmpty_def scanRows_def by (rule dropLoop_landing)
qed

lemma placeAndUpdate_board:
  assumes "placeAndUpdate gs b row col = Inr gs'"
  shows "board gs' = writeCell b row col (Some (currentPlayer gs))"
  using assms by (auto simp: placeAndUpdate_def Let_def split: sum.splits)

section \<open>Win detection\<close>

text \<open>
  C1, as stated: the axes are evaluated in the order horizontal, vertical, diagonal "/",
  diagonal "\". The table of the source holds (1, 1) third and (1, -1) fourth, and its
  comments call them "/" and "\"; on the board, (1, 1) runs down and to the right, the
  diagonal "\", and (1, -1) runs down and to the left, the diagonal "/". So the
  diagonal "\" is evaluated before the diagonal "/". In the game below the last piece
  completes both diagonals; detection in the stated order would report the cells of
  the diagonal "/", and checkWinner reports those of the diagonal "\".
\<close>

theorem checkWinner_slash_before_backslash_counterexample:
  "play initialState [0, 1, 1, 2, 3, 2, 2, 4, 3, 4, 4, 5, 5, 3, 6, 0, 3] = Inr twoDiagonalsWon
   \<and> length (combinedRun (board twoDiagonalsWon) 2 3 P1 (0, 1)) < 4
   \<and> length (combinedRun (board twoDiagonalsWon) 2 3 P1 (1, 0)) < 4
   \<and> slashAxis (1, -1)
   \<and> combinedRun (board twoDiagonalsWon) 2 3 P1 (1, -1) = [(2, 3), (3, 2), (4, 1), (5, 0)]
   \<and> combinedRun (board twoDiagonalsWon) 2 3 P1 (-1, 1) = [(5, 0), (4, 1), (3, 2), (2, 3)]
   \<and> backslashAxis (1, 1)
   \<and> combinedRun (board twoDiagonalsWon) 2 3 P1 (1, 1) = [(2, 3), (3, 4), (4, 5), (5, 6)]
   \<and> checkWinnerClaimed (board twoDiagonalsWon) 2 3 P1 = [(2, 3), (3, 2), (4, 1), (5, 0)]
   \<and> checkWinner (board twoDiagonalsWon) 2 3 P1 = Inr [(2, 3), (3, 4), (4, 5), (5, 6)]
   \<and> checkWinner (board twoDiagonalsWon) 2 3 P1 \<noteq> Inr (checkWinnerClaimed (board twoDiagonalsWon) 2 3 P1)
   \<and> winningCells twoDiagonalsWon = [(2, 3), (3, 4), (4, 5), (5, 6)]"
proof -
  have "play initialState [0, 1, 1, 2, 3, 2, 2, 4, 3, 4, 4, 5, 5, 3, 6, 0, 3] = Inr twoDiagonalsWon"
    by code_simp
  moreover have "length (combinedRun (board twoDiagonalsWon) 2 3 P1 (0, 1)) < 4" by code_simp
  moreover have "length (combinedRun (board twoDiagonalsWon) 2 3 P1 (1, 0)) < 4" by code_simp
  moreover have "slashAxis (1, -1)" by (simp add: slashAxis_def)
  moreover have "combinedRun (board twoDiagonalsWon) 2 3 P1 (1, -1) = [(2, 3), (3, 2), (4, 1), (5, 0)]"
    by code_simp
  moreover have "combinedRun (board twoDiagonalsWon) 2 3 P1 (-1, 1) = [(5, 0), (4, 1), (3, 2), (2, 3)]"
    by code_simp
  moreover have "backslashAxis (1, 1)" by (simp add: backslashAxis_def)
  moreover have "combinedRun (board twoDiagonalsWon) 2 3 P1 (1, 1) = [(2, 3), (3, 4), (4, 5), (5, 6)]"
    by code_simp
  moreover have "checkWinnerClaimed (board twoDiagonalsWon) 2 3 P1 = [(2, 3), (3, 2), (4, 1), (5, 0)]"
    by code_simp
  moreover have "checkWinner (board twoDiagonalsWon) 2 3 P1 = Inr [(2, 3), (3, 4), (4, 5), (5, 6)]"
    by code_simp
  moreover have "checkWinner (board twoDiagonalsWon) 2 3 P1
      \<noteq> Inr (checkWinnerClaimed (board twoDiagonalsWon) 2 3 P1)"
    by code_simp
  moreover have "winningCells twoDiagonalsWon = [(2, 3), (3, 4), (4, 5), (5, 6)]" by code_simp
  ultimately show ?thesis by blast
qed

text \<open>
  C1, amended: checkWinner evaluates the four axes in the fixed order of its table of
  steps (row step, column step): (0, 1) horizontal, (1, 0) vertical, (1, 1) the diagonal
  "\" running down and to the right, (1, -1) the diagonal "/" running down and to the
  left. It stops at the first axis whose combined run (the matching cells of the
  negative direction in spatial order, then the played cell, then the matching cells
  of the positive direction) has at least 4 cells; it reports exactly the first 4 cells
  of that run, counted from the negative end, and no cells when no axis qualifies. The
  board has its ROWS rows.
\<close>

theorem checkWinner_first_qualifying_axis:
  assumes "ROWS \<le> int (length b)"
  shows "directions = [(0, 1), (1, 0), (1, 1), (1, -1)]
           \<and> backslashAxis (1, 1) \<and> slashAxis (1, -1)
           \<and> checkWinner b row col p =
               Inr (case find (\<lambda>d. 4 \<le> length (combinedRun b row col p d)) directions of
                      None \<Rightarrow> []
                    | Some d \<Rightarrow> take 4 (combinedRun b row col p d))"
  using assms
  by (simp add: checkWinner_def directionsLoop_find backslashAxis_def slashAxis_def)
    (simp add: directions_def)

text \<open>
  On the board of twoDiagonalsWon the piece at (2, 3) completes both diagonals, and the
  one along (1, 1) is reported; on crossBoard the piece at (2, 3) completes its row and
  its column, and the row is reported.
\<close>

theorem checkWinner_first_qualifying_axis_witness:
  "ROWS \<le> int (length (board twoDiagonalsWon))
   \<and> 4 \<le> length (combinedRun (board twoDiagonalsWon) 2 3 P1 (1, 1))
   \<and> 4 \<le> length (combinedRun (board twoDiagonalsWon) 2 3 P1 (1, -1))
   \<and> checkWinner (board twoDiagonalsWon) 2 3 P1 = Inr [(2, 3), (3, 4), (4, 5), (5, 6)]
   \<and> ROWS \<le> int (length crossBoard)
   \<and> 4 \<le> length (combinedRun crossBoard 2 3 P1 (1, 0))
   \<and> checkWinner crossBoard 2 3 P1 = Inr [(2, 1), (2, 2), (2, 3), (2, 4)]"
proof -
  have h: "ROWS \<le> int (length crossBoard)" by code_simp
  have v: "4 \<le> length (combinedRun crossBoard 2 3 P1 (1, 0))" by code_simp
  have s: "(case find (\<lambda>d. 4 \<le> length (combinedRun crossBoard 2 3 P1 d)) directions of
              None \<Rightarrow> []
            | Some d \<Rightarrow> take 4 (combinedRun crossBoard 2 3 P1 d))
           = [(2, 1), (2, 2), (2, 3), (2, 4)]"
    by code_simp
  have c: "checkWinner crossBoard 2 3 P1 = Inr [(2, 1), (2, 2), (2, 3), (2, 4)]"
    using checkWinner_first_qualifying_axis[OF h, of 2 3 P1] unfolding s by blast
  have h': "ROWS \<le> int (length (board twoDiagonalsWon))" by code_simp
  have v1: "4 \<le> length (combinedRun (board twoDiagonalsWon) 2 3 P1 (1, 1))" by code_simp
  have v2: "4 \<le> length (combinedRun (board twoDiagonalsWon) 2 3 P1 (1, -1))" by code_simp
  have s': "(case find (\<lambda>d. 4 \<le> length (combinedRun (board twoDiagonalsWon) 2 3 P1 d)) directions of
              None \<Rightarrow> []
            | Some d \<Rightarrow> take 4 (combinedRun (board twoDiagonalsWon) 2 3 P1 d))
           = [(2, 3), (3, 4), (4, 5), (5, 6)]"
    by code_simp
  have c': "checkWinner (board twoDiagonalsWon) 2 3 P1 = Inr [(2, 3), (3, 4), (4, 5), (5, 6)]"
    using checkWinner_first_qualifying_axis[OF h', of 2 3 P1] unfolding s' by blast
  show ?thesis using h v c h' v1 v2 c' by blast
qed

text \<open>
  C9: from the empty board, four pieces of player 1 placed into column 3 land on rows
  ROWS - 1 down to ROWS - 4; detection seeded at the last one, (ROWS - 4, 3), finds the
  win on the vertical axis (1, 0) and reports the four cells of column 3 in rows
  ROWS - 4 to ROWS - 1, listed from the top one down.
\<close>

theorem scenarioA_vertical_win:
  "scenarioABoard =
     foldl (\<lambda>b row. writeCell b row 3 (Some P1)) emptyBoard [ROWS - 1, ROWS - 2, ROWS - 3, ROWS - 4]
   \<and> checkWinner scenarioABoard (ROWS - 4) 3 P1 =
       Inr [(ROWS - 4, 3), (ROWS - 3, 3), (ROWS - 2, 3), (ROWS - 1, 3)]
   \<and> find (\<lambda>d. 4 \<le> length (combinedRun scenarioABoard (ROWS - 4) 3 P1 d)) directions = Some (1, 0)
   \<and> set [(ROWS - 4, 3), (ROWS - 3, 3), (ROWS - 2, 3), (ROWS - 1, 3)] =
       {(ROWS - 1, 3), (ROWS - 2, 3), (ROWS - 3, 3), (ROWS - 4, 3 :: int)}"
proof -
  have a: "scenarioABoard =
     foldl (\<lambda>b row. writeCell b row 3 (Some P1)) emptyBoard [ROWS - 1, ROWS - 2, ROWS - 3, ROWS - 4]"
    by code_simp
  have b: "checkWinner scenarioABoard (ROWS - 4) 3 P1 =
       Inr [(ROWS - 4, 3), (ROWS - 3, 3), (ROWS - 2, 3), (ROWS - 1, 3)]"
    by code_simp
  have c: "find (\<lambda>d. 4 \<le> length (combinedRun scenarioABoard (ROWS - 4) 3 P1 d)) directions = Some (1, 0)"
    by code_simp
  have d: "set [(ROWS - 4, 3), (ROWS - 3, 3), (ROWS - 2, 3), (ROWS - 1, 3)] =
       {(ROWS - 1, 3), (ROWS - 2, 3), (ROWS - 3, 3), (ROWS - 4, 3 :: int)}"
    by auto
  show ?thesis using a b c d by blast
qed

section \<open>Dropping a piece\<close>

text \<open>
  C2: in a state that is not over, for a column inside the board whose row 0 is empty,
  dropPiece returns a state in which the current player's piece sits at the largest row
  index whose cell in that column was empty, and every other cell of the board reads as
  before.
\<close>

theorem dropPiece_lands_lowest_empty:
  assumes "wfBoard (board gs)" and "\<not> gameOver gs" and "0 \<le> col" and "col < COLS"
    and "isEmpty (board gs) 0 col"
  shows "\<exists>gs' r. dropPiece gs col = Inr gs' \<and> 0 \<le> r \<and> r < ROWS
           \<and> isEmpty (board gs) r col
           \<and> (\<forall>r'. r < r' \<and> r' < ROWS \<longrightarrow> \<not> isEmpty (board gs) r' col)
           \<and> readCell (board gs') r col = Inr (Some (Some (currentPlayer gs)))
           \<and> (\<forall>r' c'. (r', c') \<noteq> (r, col) \<longrightarrow> readCell (board gs') r' c' = readCell (board gs) r' c')"
proof -
  have "lowestEmpty (board gs) col \<noteq> None"
    using assms(5) by (auto simp: lowestEmpty_None ROWS_def)
  then obtain r where r: "lowestEmpty (board gs) col = Some r" by auto
  have ib: "inBounds (r, col)" using assms(1) r by (rule lowestEmpty_inBounds)
  have d: "dropPiece gs col = Inr (dropResult gs r col)"
    using assms(1,2) r by (simp add: dropPiece_eq)
  have w: "readCell (board (dropResult gs r col)) r' c' =
        (if r' = r \<and> c' = col then Inr (Some (Some (currentPlayer gs))) else readCell (board gs) r' c')"
    for r' c'
    using assms(1) ib by (simp add: board_dropResult readCell_writeCell)
  show ?thesis
    using d lowestEmpty_Some[OF r] w by (intro exI[of _ "dropResult gs r col"] exI[of _ r]) auto
qed

theorem dropPiece_lands_lowest_empty_witness:
  "wfBoard (board initialState) \<and> \<not> gameOver initialState \<and> (0::int) \<le> 3 \<and> 3 < COLS
   \<and> isEmpty (board initialState) 0 3
   \<and> dropPiece initialState 3 = Inr afterFirstDrop
   \<and> readCell (board afterFirstDrop) 5 3 = Inr (Some (Some P1))
   \<and> (\<exists>r. isEmpty (board initialState) r 3
         \<and> readCell (board afterFirstDrop) r 3 = Inr (Some (Some (currentPlayer initialState))))"
proof -
  have h1: "wfBoard (board initialState)" by code_simp
  have h2: "\<not> gameOver initialState" by code_simp
  have h3: "(0::int) \<le> 3" by simp
  have h4: "3 < COLS" by code_simp
  have h5: "isEmpty (board initialState) 0 3" by code_simp
  have d: "dropPiece initialState 3 = Inr afterFirstDrop" by code_simp
  have e: "readCell (board afterFirstDrop) 5 3 = Inr (Some (Some P1))" by code_simp
  obtain gs' r where "dropPiece initialState 3 = Inr gs'" and "isEmpty (board initialState) r 3"
    and "readCell (board gs') r 3 = Inr (Some (Some (currentPlayer initialState)))"
    using dropPiece_lands_lowest_empty[OF h1 h2 h3 h4 h5] by blast
  then have "\<exists>r. isEmpty (board initialState) r 3
         \<and> readCell (board afterFirstDrop) r 3 = Inr (Some (Some (currentPlayer initialState)))"
    using d by auto
  then show ?thesis using h1 h2 h4 h5 d e by simp
qed

text \<open>
  C3: in a state whose gameOver flag is set, dropPiece returns the state it was given,
  for every column: board, winner, winningCells, currentPlayer and gameOver are the
  values before the call.
\<close>

theorem dropPiece_gameOver_noop:
  assumes "gameOver gs"
  shows "dropPiece gs col = Inr gs"
  using assms by (simp add: dropPiece_def)

theorem dropPiece_gameOver_noop_witness:
  "gameOver wonState \<and> dropPiece wonState 3 = Inr wonState"
proof -
  have h: "gameOver wonState" by code_simp
  show ?thesis using h dropPiece_gameOver_noop[OF h, of 3] by blast
qed

text \<open>
  C4: in every state that is not over, a click on a column inside the board whose row 0
  is occupied returns the state unchanged. The states of the component are the
  reachable ones; the statement also covers every state whose board is a ROWS by COLS
  grid with no empty cell under an occupied one, which is what the proof uses of a
  reachable state.
\<close>

theorem dropPiece_full_column_noop:
  assumes "reachable gs \<or> (wfBoard (board gs) \<and> noFloating (board gs))"
    and "\<not> gameOver gs" and "0 \<le> col" and "col < COLS" and "\<not> isEmpty (board gs) 0 col"
  shows "dropPiece gs col = Inr gs"
proof -
  have "wfBoard (board gs) \<and> noFloating (board gs)"
    using assms(1) reachable_engineInv[of gs] by (auto simp: engineInv_def)
  then show ?thesis
    using assms(2-5) by (simp add: dropPiece_eq noFloating_column_full)
qed

theorem dropPiece_full_column_noop_witness:
  "reachable fullColumnState \<and> \<not> gameOver fullColumnState \<and> (0::int) \<le> 0 \<and> 0 < COLS
   \<and> \<not> isEmpty (board fullColumnState) 0 0
   \<and> dropPiece fullColumnState 0 = Inr fullColumnState"
proof -
  have p: "play initialState [0, 0, 0, 0, 0, 0] = Inr fullColumnState" by code_simp
  have h1: "reachable fullColumnState" using reachable.init p by (rule reachable_play)
  have h2: "\<not> gameOver fullColumnState" by code_simp
  have h3: "(0::int) \<le> 0" by simp
  have h4: "0 < COLS" by code_simp
  have h5: "\<not> isEmpty (board fullColumnState) 0 0" by code_simp
  show ?thesis
    using h1 h2 h4 h5 dropPiece_full_column_noop[OF disjI1[OF h1] h2 h3 h4 h5] by simp
qed

text \<open>
  C5: for every state (its board a ROWS by COLS grid) and every integer column below 0
  or not below COLS, dropPiece does not fail (every cell read of the scan yields
  undefined, never a TypeError) and returns the state unchanged.
\<close>

theorem dropPiece_out_of_range_noop:
  assumes "wfBoard (board gs)" and "col < 0 \<or> COLS \<le> col"
  shows "dropPiece gs col = Inr gs"
proof (cases "gameOver gs")
  case True
  then show ?thesis by (simp add: dropPiece_def)
next
  case False
  have "\<not> isEmpty (board gs) r col" if "0 \<le> r \<and> r < ROWS" for r
    using assms that isEmpty_inBounds[of "board gs" r col] by (auto simp: inBounds_def)
  then have "lowestEmpty (board gs) col = None" by (simp add: lowestEmpty_None)
  then show ?thesis using assms(1) False by (simp add: dropPiece_eq)
qed

theorem dropPiece_out_of_range_noop_witness:
  "wfBoard (board afterFirstDrop) \<and> COLS \<le> 7 \<and> dropPiece afterFirstDrop 7 = Inr afterFirstDrop
   \<and> dropPiece afterFirstDrop (- 1) = Inr afterFirstDrop"
proof -
  have h1: "wfBoard (board afterFirstDrop)" by code_simp
  have h2: "COLS \<le> 7" by code_simp
  have a: "dropPiece afterFirstDrop 7 = Inr afterFirstDrop"
    using h1 disjI2[OF h2] by (rule dropPiece_out_of_range_noop)
  have b: "dropPiece afterFirstDrop (- 1) = Inr afterFirstDrop"
    using h1 by (rule dropPiece_out_of_range_noop) simp
  show ?thesis using h1 h2 a b by blast
qed

text \<open>
  C6: a drop that placed its piece (the cell (row, col) was empty before and is not
  after), that completes no four collinear cells of the mover and after which an empty
  cell remains, leaves the game going: gameOver is false, there is no winner, and the
  turn has passed to the other player (1 becomes 2, 2 becomes 1).
\<close>

theorem dropPiece_continues_and_toggles:
  assumes "wfBoard (board gs)" and "\<not> gameOver gs" and "dropPiece gs col = Inr gs'"
    and "isEmpty (board gs) row col" and "\<not> isEmpty (board gs') row col"
    and "\<not> completesFour (board gs') row col (currentPlayer gs)"
    and "inBounds (r0, c0)" and "isEmpty (board gs') r0 c0"
  shows "\<not> gameOver gs' \<and> winner gs' = None
           \<and> currentPlayer gs' = (if currentPlayer gs = P1 then P2 else P1)"
proof -
  have g: "gs' = dropResult gs row col" and ib: "inBounds (row, col)"
    using successful_drop[OF assms(1-5)] by simp_all
  let ?b = "writeCell (board gs) row col (Some (currentPlayer gs))"
  have wf: "wfBoard ?b" using assms(1) by (rule wfBoard_writeCell)
  have own: "owns ?b (currentPlayer gs) (row, col)"
    using assms(1) ib by (simp add: owns_def readCell_writeCell)
  have nowin: "checkWinnerSpec ?b row col (currentPlayer gs) = []"
    using assms(6) checkWinnerSpec_nonempty_iff[OF own] by (simp add: g board_dropResult)
  have notfull: "\<not> list_all (\<lambda>r. list_all (\<lambda>cell. cell \<noteq> None) r) ?b"
    using assms(7,8) full_iff[OF wf] by (auto simp: g board_dropResult)
  show ?thesis using nowin notfull by (simp add: g dropResult_def Let_def)
qed

theorem dropPiece_continues_and_toggles_witness:
  "wfBoard (board initialState) \<and> \<not> gameOver initialState
   \<and> dropPiece initialState 3 = Inr afterFirstDrop
   \<and> isEmpty (board initialState) 5 3 \<and> \<not> isEmpty (board afterFirstDrop) 5 3
   \<and> \<not> completesFour (board afterFirstDrop) 5 3 (currentPlayer initialState)
   \<and> inBounds (0, 0) \<and> isEmpty (board afterFirstDrop) 0 0
   \<and> currentPlayer initialState = P1
   \<and> \<not> gameOver afterFirstDrop \<and> winner afterFirstDrop = None
   \<and> currentPlayer afterFirstDrop = P2"
proof -
  have h1: "wfBoard (board initialState)" by code_simp
  have h2: "\<not> gameOver initialState" by code_simp
  have h3: "dropPiece initialState 3 = Inr afterFirstDrop" by code_simp
  have h4: "isEmpty (board initialState) 5 3" by code_simp
  have h5: "\<not> isEmpty (board afterFirstDrop) 5 3" by code_simp
  have h6: "\<not> completesFour (board afterFirstDrop) 5 3 (currentPlayer initialState)" by code_simp
  have h7: "inBounds (0, 0)" by code_simp
  have h8: "isEmpty (board afterFirstDrop) 0 0" by code_simp
  have p: "currentPlayer initialState = P1" by code_simp
  show ?thesis
    using dropPiece_continues_and_toggles[OF h1 h2 h3 h4 h5 h6 h7 h8] h1 h2 h3 h4 h5 h6 h7 h8 p
    by simp
qed

text \<open>
  C7: a drop that placed its piece (the cell (row, col) was empty before and is not
  after), that completes no four collinear cells of the mover and after which no cell
  of the board is empty, ends the game as a draw: gameOver is true, there is no winner,
  winningCells is empty and currentPlayer is still the mover.
\<close>

theorem dropPiece_draw:
  assumes "wfBoard (board gs)" and "\<not> gameOver gs" and "dropPiece gs col = Inr gs'"
    and "isEmpty (board gs) row col" and "\<not> isEmpty (board gs') row col"
    and "\<not> completesFour (board gs') row col (currentPlayer gs)"
    and "\<forall>r c. inBounds (r, c) \<longrightarrow> \<not> isEmpty (board gs') r c"
  shows "gameOver gs' \<and> winner gs' = None \<and> winningCells gs' = []
           \<and> currentPlayer gs' = currentPlayer gs"
proof -
  have g: "gs' = dropResult gs row col" and ib: "inBounds (row, col)"
    using successful_drop[OF assms(1-5)] by simp_all
  let ?b = "writeCell (board gs) row col (Some (currentPlayer gs))"
  have wf: "wfBoard ?b" using assms(1) by (rule wfBoard_writeCell)
  have own: "owns ?b (currentPlayer gs) (row, col)"
    using assms(1) ib by (simp add: owns_def readCell_writeCell)
  have nowin: "checkWinnerSpec ?b row col (currentPlayer gs) = []"
    using assms(6) checkWinnerSpec_nonempty_iff[OF own] by (simp add: g board_dropResult)
  have full: "list_all (\<lambda>r. list_all (\<lambda>cell. cell \<noteq> None) r) ?b"
    using assms(7) full_iff[OF wf] by (simp add: g board_dropResult)
  show ?thesis using nowin full by (simp add: g dropResult_def Let_def)
qed

text \<open>
  Scenario B: lastCellState has one empty cell, (0, 0), and no four in a line; player
  1's piece there ends the game without a winner.
\<close>

theorem dropPiece_draw_witness:
  "wfBoard (board lastCellState) \<and> \<not> gameOver lastCellState
   \<and> dropPiece lastCellState 0 = Inr drawnState
   \<and> isEmpty (board lastCellState) 0 0 \<and> \<not> isEmpty (board drawnState) 0 0
   \<and> \<not> completesFour (board drawnState) 0 0 (currentPlayer lastCellState)
   \<and> list_all (\<lambda>r. list_all (\<lambda>cell. cell \<noteq> None) r) (board drawnState)
   \<and> gameOver drawnState \<and> winner drawnState = None \<and> winningCells drawnState = []
   \<and> currentPlayer drawnState = currentPlayer lastCellState"
proof -
  have h1: "wfBoard (board lastCellState)" by code_simp
  have h2: "\<not> gameOver lastCellState" by code_simp
  have h3: "dropPiece lastCellState 0 = Inr drawnState" by code_simp
  have h4: "isEmpty (board lastCellState) 0 0" by code_simp
  have h5: "\<not> isEmpty (board drawnState) 0 0" by code_simp
  have h6: "\<not> completesFour (board drawnState) 0 0 (currentPlayer lastCellState)" by code_simp
  have w: "wfBoard (board drawnState)" by code_simp
  have f: "list_all (\<lambda>r. list_all (\<lambda>cell. cell \<noteq> None) r) (board drawnState)" by code_simp
  have h7: "\<forall>r c. inBounds (r, c) \<longrightarrow> \<not> isEmpty (board drawnState) r c"
    using f full_iff[OF w] by simp
  show ?thesis
    using dropPiece_draw[OF h1 h2 h3 h4 h5 h6 h7] h1 h2 h3 h4 h5 h6 f by simp
qed

section \<open>Invariants of the reachable states\<close>

text \<open>
  C8: in every state reachable from the initial state by dropPiece and reset calls, a
  winningCells list that is not empty holds exactly 4 coordinate pairs, all different;
  each is a cell inside the board that holds a piece of the winner; and the four are
  collinear and contiguous, each one unit step after the one before along one of the
  four axes (horizontal, vertical, and the two diagonals).
\<close>

theorem reachable_winningCells_line:
  assumes "reachable gs" and "winningCells gs \<noteq> []"
  shows "length (winningCells gs) = 4 \<and> distinct (winningCells gs)
           \<and> (\<exists>p. winner gs = Some p \<and> list_all (owns (board gs) p) (winningCells gs))
           \<and> isLine (winningCells gs)"
  using reachable_engineInv[OF assms(1)] assms(2) by (simp add: engineInv_def winningCellsOK_def)

theorem reachable_winningCells_line_witness:
  "reachable wonState \<and> winningCells wonState = [(2, 3), (3, 3), (4, 3), (5, 3)]
   \<and> length (winningCells wonState) = 4 \<and> distinct (winningCells wonState)
   \<and> (\<exists>p. winner wonState = Some p \<and> list_all (owns (board wonState) p) (winningCells wonState))
   \<and> isLine (winningCells wonState)"
proof -
  have p: "play initialState [3, 0, 3, 0, 3, 0, 3] = Inr wonState" by code_simp
  have h1: "reachable wonState" using reachable.init p by (rule reachable_play)
  have c: "winningCells wonState = [(2, 3), (3, 3), (4, 3), (5, 3)]" by code_simp
  have h2: "winningCells wonState \<noteq> []" unfolding c by simp
  show ?thesis
    using reachable_winningCells_line[OF h1 h2] h1 c by blast
qed

text \<open>
  C10: in every state reachable from the initial state by dropPiece and reset calls,
  winner is non-empty exactly when winningCells is non-empty. Both operations preserve
  the equivalence: reset makes both empty; dropPiece keeps it from any state; and a
  drop that changes the state has placed the mover's piece at the lowest empty row of
  the column, stores as winningCells the cells that detection, seeded at that cell on
  the new board for the mover, returned, and sets winner to the mover exactly when that
  list is not empty.
\<close>

theorem reachable_winner_iff_winningCells:
  "(reachable gs \<longrightarrow> (winner gs \<noteq> None \<longleftrightarrow> winningCells gs \<noteq> []))
   \<and> (winner (resetGame gs) = None \<and> winningCells (resetGame gs) = [])
   \<and> ((winner gs \<noteq> None \<longleftrightarrow> winningCells gs \<noteq> []) \<and> dropPiece gs col = Inr gs'
        \<longrightarrow> (winner gs' \<noteq> None \<longleftrightarrow> winningCells gs' \<noteq> []))
   \<and> (dropPiece gs col = Inr gs' \<and> gs' \<noteq> gs
        \<longrightarrow> (\<exists>row. lowestEmpty (board gs) col = Some row
                 \<and> board gs' = writeCell (board gs) row col (Some (currentPlayer gs))
                 \<and> checkWinner (board gs') row col (currentPlayer gs) = Inr (winningCells gs')
                 \<and> winner gs' = (if winningCells gs' = [] then None else Some (currentPlayer gs))))"
proof -
  have placed: "\<exists>row. lowestEmpty (board gs) col = Some row
                 \<and> board gs' = writeCell (board gs) row col (Some (currentPlayer gs))
                 \<and> checkWinner (board gs') row col (currentPlayer gs) = Inr (winningCells gs')
                 \<and> winner gs' = (if winningCells gs' = [] then None else Some (currentPlayer gs))"
    if d: "dropPiece gs col = Inr gs'" and n: "gs' \<noteq> gs" for gs col gs'
  proof -
    obtain r where r: "lowestEmpty (board gs) col = Some r"
      and p: "placeAndUpdate gs (board gs) r col = Inr gs'"
      using dropPiece_landing[OF d n] by blast
    show ?thesis
      using r placeAndUpdate_board[OF p] placeAndUpdate_winner[OF p] by blast
  qed
  have pres: "winner gs' \<noteq> None \<longleftrightarrow> winningCells gs' \<noteq> []"
    if "winner gs \<noteq> None \<longleftrightarrow> winningCells gs \<noteq> []" "dropPiece gs col = Inr gs'" for gs col gs'
  proof (cases "gs' = gs")
    case True
    then show ?thesis using that(1) by simp
  next
    case False
    then show ?thesis using placed[OF that(2)] by (auto split: if_splits)
  qed
  have "winner gs \<noteq> None \<longleftrightarrow> winningCells gs \<noteq> []" if "reachable gs"
    using that
  proof (induction rule: reachable.induct)
    case init
    show ?case by (simp add: initialState_def)
  next
    case (drop gs col gs')
    then show ?case using pres by blast
  next
    case (reset gs)
    show ?case by (simp add: resetGame_def)
  qed
  then show ?thesis using pres[of gs col gs'] placed[of gs col gs'] by (simp add: resetGame_def)
qed

theorem reachable_winner_iff_winningCells_witness:
  "reachable beforeWinState \<and> dropPiece beforeWinState 3 = Inr wonState
   \<and> wonState \<noteq> beforeWinState
   \<and> winner beforeWinState = None \<and> winningCells beforeWinState = []
   \<and> winner (resetGame beforeWinState) = None \<and> winningCells (resetGame beforeWinState) = []
   \<and> lowestEmpty (board beforeWinState) 3 = Some 2
   \<and> checkWinner (board wonState) 2 3 (currentPlayer beforeWinState) = Inr (winningCells wonState)
   \<and> winner wonState \<noteq> None \<and> winningCells wonState \<noteq> []
   \<and> winner wonState = Some (currentPlayer beforeWinState)"
proof -
  have p: "play initialState [3, 0, 3, 0, 3, 0] = Inr beforeWinState" by code_simp
  have h1: "reachable beforeWinState" using reachable.init p by (rule reachable_play)
  have h2: "dropPiece beforeWinState 3 = Inr wonState" by code_simp
  have h3: "wonState \<noteq> beforeWinState" by code_simp
  have h4: "winningCells wonState \<noteq> []" by code_simp
  have l: "lowestEmpty (board beforeWinState) 3 = Some 2" by code_simp
  have a: "winner beforeWinState \<noteq> None \<longleftrightarrow> winningCells beforeWinState \<noteq> []"
    using reachable_winner_iff_winningCells[of beforeWinState 3 wonState] h1 by blast
  have b: "winningCells beforeWinState = []" by code_simp
  have c: "winner (resetGame beforeWinState) = None \<and> winningCells (resetGame beforeWinState) = []"
    using reachable_winner_iff_winningCells[of beforeWinState 3 wonState] by blast
  have d: "winner wonState \<noteq> None \<longleftrightarrow> winningCells wonState \<noteq> []"
    using reachable_winner_iff_winningCells[of beforeWinState 3 wonState] a h2 by blast
  obtain row where "lowestEmpty (board beforeWinState) 3 = Some row"
    and k: "checkWinner (board wonState) row 3 (currentPlayer beforeWinState) = Inr (winningCells wonState)"
    and e: "winner wonState = (if winningCells wonState = [] then None else Some (currentPlayer beforeWinState))"
    using reachable_winner_iff_winningCells[of beforeWinState 3 wonState] h2 h3 by blast
  then have "row = 2" using l by simp
  then have k': "checkWinner (board wonState) 2 3 (currentPlayer beforeWinState) = Inr (winningCells wonState)"
    using k by simp
  show ?thesis using h1 h2 h3 h4 l a b c d e k' by simp
qed

end
